theory Spec2Isabelle
  imports Main
begin

section \<open>Strings of the source language\<close>

text \<open>
  A source string is a sequence of UTF-16 code units. The model uses \<^typ>\<open>string\<close>, so a
  character is a code unit below 256 (the Latin-1 range); \<open>length\<close> counts code units as
  the source's \<open>.length\<close> does. Documents with code units beyond that range are outside
  the model.
\<close>

definition isWhiteSpace :: "char \<Rightarrow> bool" where
  \<comment> \<open>the class \<open>\s\<close> of the regular expressions, which is also what \<open>trim\<close> strips\<close>
  "isWhiteSpace c =
     (c = CHR 0x09 \<or> c = CHR 0x0A \<or> c = CHR 0x0B \<or> c = CHR 0x0C \<or> c = CHR 0x0D
      \<or> c = CHR '' '' \<or> c = CHR 0xA0)"

definition isLetter :: "char \<Rightarrow> bool" where
  \<comment> \<open>the class \<open>[A-Za-z_]\<close>\<close>
  "isLetter c =
     (let n = (of_char c :: nat)
      in (65 \<le> n \<and> n \<le> 90) \<or> (97 \<le> n \<and> n \<le> 122) \<or> n = 95)"

definition hasLetter :: "string \<Rightarrow> bool" where
  \<comment> \<open>\<open>/[A-Za-z_]/.test(s)\<close>\<close>
  "hasLetter s = list_ex isLetter s"

definition toLower :: "char \<Rightarrow> char" where
  \<comment> \<open>\<open>toLowerCase\<close> on one code unit of the Latin-1 range\<close>
  "toLower c =
     (let n = (of_char c :: nat)
      in if (65 \<le> n \<and> n \<le> 90) \<or> (192 \<le> n \<and> n \<le> 222 \<and> n \<noteq> 215)
         then char_of (n + 32) else c)"

definition toLowerCase :: "string \<Rightarrow> string" where
  "toLowerCase s = map toLower s"

definition asciiUpper :: "char \<Rightarrow> char" where
  \<comment> \<open>the canonical form of a character under the flag \<open>i\<close> (without \<open>u\<close>): a code unit
      of 128 or more never folds onto an ASCII letter\<close>
  "asciiUpper c =
     (let n = (of_char c :: nat)
      in if 97 \<le> n \<and> n \<le> 122 then char_of (n - 32) else c)"

definition trim :: "string \<Rightarrow> string" where
  "trim s = rev (dropWhile isWhiteSpace (rev (dropWhile isWhiteSpace s)))"

fun startsWith :: "string \<Rightarrow> string \<Rightarrow> bool" where
  "startsWith s [] = True"
| "startsWith [] (p # ps) = False"
| "startsWith (c # cs) (p # ps) = (c = p \<and> startsWith cs ps)"

fun indexOf :: "string \<Rightarrow> string \<Rightarrow> nat option" where
  \<comment> \<open>\<open>hay.indexOf(needle)\<close>; \<open>None\<close> is the source's \<open>-1\<close>\<close>
  "indexOf [] needle = (if needle = [] then Some 0 else None)"
| "indexOf (c # cs) needle =
     (if startsWith (c # cs) needle then Some 0
      else map_option Suc (indexOf cs needle))"

definition includesChar :: "string \<Rightarrow> char \<Rightarrow> bool" where
  "includesChar s c = (indexOf s [c] \<noteq> None)"

definition splitLimit2 :: "char \<Rightarrow> string \<Rightarrow> string list" where
  \<comment> \<open>\<open>s.split(sep, 2)\<close> for a one-character separator: the first two pieces\<close>
  "splitLimit2 sep s =
     (case dropWhile (\<lambda>c. c \<noteq> sep) s of
        [] \<Rightarrow> [takeWhile (\<lambda>c. c \<noteq> sep) s]
      | _ # r \<Rightarrow> [takeWhile (\<lambda>c. c \<noteq> sep) s, takeWhile (\<lambda>c. c \<noteq> sep) r])"

function splitWs :: "string \<Rightarrow> string list" where
  \<comment> \<open>\<open>line.split(/(\s+)/)\<close>: the pieces between the whitespace runs, and the runs\<close>
  "splitWs s =
     (let piece = takeWhile (\<lambda>c. \<not> isWhiteSpace c) s;
          r = dropWhile (\<lambda>c. \<not> isWhiteSpace c) s
      in if r = [] then [piece]
         else piece # takeWhile isWhiteSpace r # splitWs (dropWhile isWhiteSpace r))"
  by pat_completeness auto
termination
proof (relation "measure length")
  fix s piece r
  assume r: "r = dropWhile (\<lambda>c. \<not> isWhiteSpace c) s" and ne: "r \<noteq> []"
  from ne have "isWhiteSpace (hd r)"
    unfolding r using hd_dropWhile [of "\<lambda>c. \<not> isWhiteSpace c" s] by simp
  with ne have "length (dropWhile isWhiteSpace r) < length r"
    by (cases r) (simp_all add: le_imp_less_Suc length_dropWhile_le)
  moreover have "length r \<le> length s"
    unfolding r by (rule length_dropWhile_le)
  ultimately show "(dropWhile isWhiteSpace r, s) \<in> measure length" by simp
qed simp

declare splitWs.simps [simp del]

section \<open>Helpers of the extension\<close>

definition cleanIdentifier :: "string \<Rightarrow> string" where
  "cleanIdentifier text =
     (let noPunct = filter (\<lambda>c. c \<noteq> CHR '','' \<and> c \<noteq> CHR '';'' \<and> c \<noteq> CHR ''(''
                              \<and> c \<noteq> CHR '')'') text;
          noQuotes = rev (dropWhile (\<lambda>c. c = CHR 0x22)
                       (rev (dropWhile (\<lambda>c. c = CHR 0x22) noPunct)))
      in trim noQuotes)"

definition SQL_KEYWORDS :: "string set" where
  "SQL_KEYWORDS = set
     [''select'', ''from'', ''where'', ''join'', ''inner'', ''left'', ''right'', ''full'',
      ''on'', ''group'', ''by'', ''order'', ''limit'', ''offset'', ''as'', ''and'', ''or'',
      ''not'', ''insert'', ''into'', ''update'', ''delete'', ''values'', ''set'',
      ''with'', ''having'', ''union'', ''all'', ''distinct'', ''exists'', ''in'', ''like'',
      ''between'', ''case'', ''when'', ''then'', ''else'', ''end'', ''asc'', ''desc'',
      ''sum'', ''count'', ''avg'', ''min'', ''max'']"

fun matchAggregate :: "string list \<Rightarrow> string \<Rightarrow> string option" where
  \<comment> \<open>the alternatives of the first group in order; after the name, \<open>\s*\<close>, an opening
      parenthesis, the longest non-empty run without a closing parenthesis (the second group,
      returned), and a closing parenthesis\<close>
  "matchAggregate [] s = None"
| "matchAggregate (name # names) s =
     (let r = dropWhile isWhiteSpace (drop (length name) s);
          body = takeWhile (\<lambda>c. c \<noteq> CHR '')'') (tl r)
      in if length name \<le> length s
            \<and> map asciiUpper (take (length name) s) = map asciiUpper name
            \<and> startsWith r ''(''
            \<and> body \<noteq> []
            \<and> startsWith (dropWhile (\<lambda>c. c \<noteq> CHR '')'') (tl r)) '')''
         then Some body
         else matchAggregate names s)"

definition funcCallMatch :: "string \<Rightarrow> string option" where
  \<comment> \<open>\<open>rawPart.match(/^(sum|count|avg|min|max)\s*\(([^)]+)\)/i)\<close>, giving the second group\<close>
  "funcCallMatch rawPart =
     matchAggregate [''sum'', ''count'', ''avg'', ''min'', ''max''] rawPart"

section \<open>Schema snapshot, tokens and the state of one classification pass\<close>

record snapshot =
  KNOWN_TABLES :: "string set"
  KNOWN_COLUMNS :: "string set"
  TABLE_COLUMNS :: "string \<rightharpoonup> string set"

datatype tokenType = Table | Column

datatype token = Token (tokLine: nat) (startChar: nat) (tokLength: nat) (tokType: tokenType)

datatype scanMode = ModeNone | ModeSelect | ModeFrom

record scan =
  builder :: "token list"
  aliasMap :: "string \<rightharpoonup> string"
  mode :: scanMode
  lastTableName :: "string option"
  lastWasAs :: bool
  charIndex :: nat

definition initialScan :: scan where
  "initialScan =
     \<lparr>builder = [], aliasMap = Map.empty, mode = ModeNone,
      lastTableName = None, lastWasAs = False, charIndex = 0\<rparr>"

definition addToken :: "nat \<Rightarrow> nat \<Rightarrow> nat \<Rightarrow> tokenType \<Rightarrow> scan \<Rightarrow> scan" where
  \<comment> \<open>both token types are in the legend, so the push always happens\<close>
  "addToken ln start len ty st = st\<lparr>builder := builder st @ [Token ln start len ty]\<rparr>"

definition advance :: "string \<Rightarrow> scan \<Rightarrow> scan" where
  \<comment> \<open>\<open>charIndex += rawPart.length; continue\<close>\<close>
  "advance rawPart st = st\<lparr>charIndex := charIndex st + length rawPart\<rparr>"

section \<open>The classification of one fragment\<close>

definition aggregateCall :: "nat \<Rightarrow> string \<Rightarrow> string \<Rightarrow> scan \<Rightarrow> scan" where
  "aggregateCall ln rawPart innerExpr st =
     (let innerTrimmed = trim innerExpr;
          innerBaseChar = charIndex st
            + (case indexOf rawPart innerTrimmed of Some k \<Rightarrow> k | None \<Rightarrow> 0);
          st' =
            (if innerTrimmed \<noteq> [] then
               (case indexOf innerTrimmed ''.'' of
                  Some dotPosInner \<Rightarrow>
                    (let leftClean = cleanIdentifier (take dotPosInner innerTrimmed);
                         rightClean = cleanIdentifier (drop (dotPosInner + 1) innerTrimmed);
                         st1 = (if hasLetter leftClean
                                then addToken ln innerBaseChar (length leftClean) Table st
                                else st)
                     in if hasLetter rightClean
                        then addToken ln (innerBaseChar + dotPosInner + 1)
                               (length rightClean) Column st1
                        else st1)
                | None \<Rightarrow>
                    (let cleanInner = cleanIdentifier innerTrimmed
                     in if hasLetter cleanInner
                        then addToken ln innerBaseChar (length cleanInner) Column st
                        else st))
             else st)
      in advance rawPart st')"

definition dottedIdentifier ::
  "snapshot \<Rightarrow> nat \<Rightarrow> string \<Rightarrow> string \<Rightarrow> scan \<Rightarrow> scan option" where
  \<comment> \<open>\<open>None\<close>: the fragment falls through to the rules for a bare identifier\<close>
  "dottedIdentifier K ln rawPart cleaned st =
     (if includesChar cleaned CHR ''.'' then
        (case (splitLimit2 CHR ''.'' cleaned, indexOf rawPart ''.'') of
           ([leftRaw, rightRaw], Some dotPosInRaw) \<Rightarrow>
             (if leftRaw \<noteq> [] \<and> rightRaw \<noteq> [] then
                (let leftLower = toLowerCase leftRaw;
                     rightLower = toLowerCase rightRaw;
                     realTable = (case aliasMap st leftLower of Some t \<Rightarrow> t
                                  | None \<Rightarrow> leftLower);
                     st1 = (if realTable \<in> KNOWN_TABLES K \<or> mode st = ModeFrom
                               \<or> mode st = ModeSelect
                            then addToken ln (charIndex st) (length leftRaw) Table st
                            else st);
                     st2 = (if hasLetter rightLower
                            then addToken ln (charIndex st + dotPosInRaw + 1)
                                   (length rightRaw) Column st1
                            else st1)
                 in Some (advance rawPart st2))
              else None)
         | _ \<Rightarrow> None)
      else None)"

definition truthy :: "string option \<Rightarrow> bool" where
  \<comment> \<open>a \<open>string | null\<close> in a condition: \<open>null\<close> and the empty string are false\<close>
  "truthy v = (case v of None \<Rightarrow> False | Some s \<Rightarrow> s \<noteq> [])"

definition bareIdentifier :: "snapshot \<Rightarrow> nat \<Rightarrow> string \<Rightarrow> string \<Rightarrow> scan \<Rightarrow> scan" where
  "bareIdentifier K ln rawPart lower st =
     (let (tokenType, st1) =
            (if mode st = ModeFrom then
               (if lower \<in> KNOWN_TABLES K
                then (Some Table, st\<lparr>lastTableName := Some lower\<rparr>)
                else if truthy (lastTableName st) \<and> lower \<notin> SQL_KEYWORDS
                then (Some Table,
                      st\<lparr>aliasMap := (aliasMap st)(lower \<mapsto> the (lastTableName st)),
                         lastTableName := None\<rparr>)
                else (None, st))
             else (None, st));
          tokenType' =
            (if tokenType = None then
               (if lower \<in> KNOWN_TABLES K then Some Table
                else if lower \<in> KNOWN_COLUMNS K then Some Column
                else if mode st = ModeFrom then Some Table
                else if mode st = ModeSelect then Some Column
                else None)
             else tokenType);
          st2 = (case tokenType' of
                   Some ty \<Rightarrow> addToken ln (charIndex st) (length rawPart) ty st1
                 | None \<Rightarrow> st1)
      in advance rawPart st2)"

definition classifyPart :: "snapshot \<Rightarrow> nat \<Rightarrow> string \<Rightarrow> scan \<Rightarrow> scan" where
  \<comment> \<open>the rules after the aggregate-call shortcut\<close>
  "classifyPart K ln rawPart st =
     (let cleaned = cleanIdentifier rawPart;
          lower = toLowerCase cleaned
      in if cleaned = [] then advance rawPart st
         else if \<not> hasLetter cleaned then advance rawPart st
         else if lower = ''select''
           then advance rawPart (st\<lparr>mode := ModeSelect, lastWasAs := False\<rparr>)
         else if lower = ''from'' \<or> lower = ''join''
           then advance rawPart (st\<lparr>mode := ModeFrom, lastWasAs := False\<rparr>)
         else if lower = ''as''
           then advance rawPart (st\<lparr>lastWasAs := True\<rparr>)
         else if lower \<in> SQL_KEYWORDS
           then advance rawPart (st\<lparr>lastWasAs := False\<rparr>)
         else if lastWasAs st \<and> mode st = ModeSelect
           then advance rawPart
                  ((addToken ln (charIndex st) (length rawPart) Column st)
                     \<lparr>lastWasAs := False\<rparr>)
         else (case dottedIdentifier K ln rawPart cleaned (st\<lparr>lastWasAs := False\<rparr>) of
                 Some st' \<Rightarrow> st'
               | None \<Rightarrow> bareIdentifier K ln rawPart lower (st\<lparr>lastWasAs := False\<rparr>)))"

definition processPart :: "snapshot \<Rightarrow> nat \<Rightarrow> scan \<Rightarrow> string \<Rightarrow> scan" where
  \<comment> \<open>the body of the loop over the fragments of a line\<close>
  "processPart K ln st rawPart =
     (if rawPart = [] then st
      else if trim rawPart = [] then advance rawPart st
      else (case funcCallMatch rawPart of
              Some innerExpr \<Rightarrow> aggregateCall ln rawPart innerExpr st
            | None \<Rightarrow> classifyPart K ln rawPart st))"

section \<open>Lines and documents\<close>

definition stripComment :: "string \<Rightarrow> string" where
  "stripComment rawLine =
     (case indexOf rawLine ''--'' of Some commentIdx \<Rightarrow> take commentIdx rawLine
      | None \<Rightarrow> rawLine)"

definition beginLine :: "scan \<Rightarrow> scan" where
  \<comment> \<open>the variables declared afresh for each line that is scanned\<close>
  "beginLine st = st\<lparr>lastTableName := None, lastWasAs := False, charIndex := 0\<rparr>"

definition scanLine :: "snapshot \<Rightarrow> nat \<Rightarrow> string \<Rightarrow> scan \<Rightarrow> scan" where
  "scanLine K ln rawLine st =
     (let line = stripComment rawLine
      in if trim line = [] then st
         else foldl (processPart K ln) (beginLine st) (splitWs line))"

datatype error = IllegalArgument | LoadRejected

definition lineAt :: "string list \<Rightarrow> nat \<Rightarrow> error + string" where
  \<comment> \<open>\<open>document.lineAt(n)\<close> throws for a line number out of range\<close>
  "lineAt document n =
     (if n < length document then Inr (document ! n) else Inl IllegalArgument)"

function scanLines :: "snapshot \<Rightarrow> string list \<Rightarrow> nat \<Rightarrow> scan \<Rightarrow> error + scan" where
  \<comment> \<open>\<open>for (lineNumber = ...; lineNumber < document.lineCount; lineNumber++)\<close>\<close>
  "scanLines K document lineNumber st =
     (if lineNumber < length document then
        (case lineAt document lineNumber of
           Inl e \<Rightarrow> Inl e
         | Inr rawLine \<Rightarrow>
             scanLines K document (Suc lineNumber) (scanLine K lineNumber rawLine st))
      else Inr st)"
  by pat_completeness auto
termination
  by (relation "measure (\<lambda>(K, document, lineNumber, st). length document - lineNumber)") auto

declare scanLines.simps [simp del]

definition scanDocument :: "snapshot \<Rightarrow> string list \<Rightarrow> error + token list" where
  \<comment> \<open>the body of \<open>provideDocumentSemanticTokens\<close> after the awaited load: one pass over
      the document against the snapshot \<open>K\<close>, returning what the builder holds\<close>
  "scanDocument K document =
     (case scanLines K document 0 initialScan of
        Inl e \<Rightarrow> Inl e
      | Inr st \<Rightarrow> Inr (builder st))"

text \<open>
  The states of a pass are those reached by fragments and by starts of lines; a list of
  such steps names a position later in the same pass.
\<close>

datatype scanStep = Fragment nat string | LineStart

fun applyStep :: "snapshot \<Rightarrow> scan \<Rightarrow> scanStep \<Rightarrow> scan" where
  "applyStep K st (Fragment ln rawPart) = processPart K ln st rawPart"
| "applyStep K st LineStart = beginLine st"

definition stepsOfLine :: "nat \<Rightarrow> string \<Rightarrow> scanStep list" where
  "stepsOfLine ln rawLine =
     (let line = stripComment rawLine
      in if trim line = [] then [] else LineStart # map (Fragment ln) (splitWs line))"

section \<open>The order of the tokens\<close>

definition tokLeq :: "token \<Rightarrow> token \<Rightarrow> bool" where
  "tokLeq a b =
     (tokLine a < tokLine b \<or> (tokLine a = tokLine b \<and> startChar a \<le> startChar b))"

fun nonDecreasing :: "token list \<Rightarrow> bool" where
  "nonDecreasing [] = True"
| "nonDecreasing [t] = True"
| "nonDecreasing (a # b # ts) = (tokLeq a b \<and> nonDecreasing (b # ts))"

section \<open>Schema loading\<close>

datatype 'a outcome = Rejected | Resolved 'a

text \<open>
  The database as the load sees it: whether the connection is made, the rows of the two
  catalog queries (or their failure), and whether closing the connection succeeds. A row
  of the first query is its \<open>table_name\<close>, a row of the second its \<open>table_name\<close> and
  \<open>column_name\<close>.
\<close>

record provider =
  connectOk :: bool
  tablesRes :: "string list outcome"
  colsRes :: "(string \<times> string) list outcome"
  endOk :: bool

definition emptySnapshot :: snapshot where
  "emptySnapshot = \<lparr>KNOWN_TABLES = {}, KNOWN_COLUMNS = {}, TABLE_COLUMNS = Map.empty\<rparr>"

definition clearSchema :: "snapshot \<Rightarrow> snapshot" where
  "clearSchema K = K\<lparr>KNOWN_TABLES := {}, KNOWN_COLUMNS := {}, TABLE_COLUMNS := Map.empty\<rparr>"

definition addTableRow :: "string \<Rightarrow> snapshot \<Rightarrow> snapshot" where
  "addTableRow table_name K =
     (let t = toLowerCase table_name
      in K\<lparr>KNOWN_TABLES := insert t (KNOWN_TABLES K),
            TABLE_COLUMNS := (TABLE_COLUMNS K)(t \<mapsto> {})\<rparr>)"

definition addColumnRow :: "string \<times> string \<Rightarrow> snapshot \<Rightarrow> snapshot" where
  "addColumnRow row K =
     (let tableName = toLowerCase (fst row);
          columnName = toLowerCase (snd row);
          cols = (case TABLE_COLUMNS K tableName of Some s \<Rightarrow> s | None \<Rightarrow> {})
      in K\<lparr>KNOWN_COLUMNS :=
              insert (tableName @ ''.'' @ columnName) (insert columnName (KNOWN_COLUMNS K)),
            TABLE_COLUMNS := (TABLE_COLUMNS K)(tableName \<mapsto> insert columnName cols)\<rparr>)"

definition loadSchemaFromDatabase :: "provider \<Rightarrow> snapshot \<Rightarrow> unit outcome \<times> snapshot" where
  \<comment> \<open>the settlement of the load and the global sets as it leaves them; closing the
      connection in \<open>finally\<close> can only turn a success into a failure\<close>
  "loadSchemaFromDatabase db K =
     (if \<not> connectOk db then (Rejected, K)
      else
        (let K0 = clearSchema K
         in case tablesRes db of
              Rejected \<Rightarrow> (Rejected, K0)
            | Resolved tableRows \<Rightarrow>
                (let K1 = fold addTableRow tableRows K0
                 in case colsRes db of
                      Rejected \<Rightarrow> (Rejected, K1)
                    | Resolved colRows \<Rightarrow>
                        (if endOk db then Resolved () else Rejected,
                         fold addColumnRow colRows K1))))"

definition catchLog :: "unit outcome \<Rightarrow> unit outcome" where
  \<comment> \<open>\<open>.catch((err) => console.error(...))\<close>: a rejection is logged and becomes a
      fulfilment\<close>
  "catchLog r = (case r of Rejected \<Rightarrow> Resolved () | Resolved u \<Rightarrow> Resolved u)"

text \<open>
  A promise is told apart by the load attempt that created it; it is pending until it
  has a settlement.
\<close>

datatype promise = Promise (attempt: nat) (settlement: "unit outcome option")

record session =
  schemaLoadPromise :: "promise option"
  schema :: snapshot
  loadsStarted :: nat

definition initialSession :: session where
  "initialSession = \<lparr>schemaLoadPromise = None, schema = emptySnapshot, loadsStarted = 0\<rparr>"

definition ensureSchemaLoaded :: "session \<Rightarrow> session" where
  \<comment> \<open>the synchronous part of the call; the promise it returns is the one in the slot
      afterwards\<close>
  "ensureSchemaLoaded s =
     (case schemaLoadPromise s of
        None \<Rightarrow> s\<lparr>schemaLoadPromise := Some (Promise (Suc (loadsStarted s)) None),
                  loadsStarted := Suc (loadsStarted s)\<rparr>
      | Some p \<Rightarrow> s)"

definition loadSettles :: "provider \<Rightarrow> session \<Rightarrow> session" where
  \<comment> \<open>the pending load runs to its end against \<open>db\<close>; nobody reads the sets before that,
      since every reader awaits the promise\<close>
  "loadSettles db s =
     (case schemaLoadPromise s of
        Some (Promise a None) \<Rightarrow>
          (let (r, K) = loadSchemaFromDatabase db (schema s)
           in s\<lparr>schemaLoadPromise := Some (Promise a (Some (catchLog r))), schema := K\<rparr>)
      | _ \<Rightarrow> s)"

datatype event = EnsureSchemaLoaded | LoadSettles provider

fun sessionStep :: "session \<Rightarrow> event \<Rightarrow> session" where
  "sessionStep s EnsureSchemaLoaded = ensureSchemaLoaded s"
| "sessionStep s (LoadSettles db) = loadSettles db s"

fun observed :: "session \<Rightarrow> event list \<Rightarrow> nat list" where
  \<comment> \<open>the attempts whose promises the calls of \<open>ensureSchemaLoaded\<close> return, in order\<close>
  "observed s [] = []"
| "observed s (EnsureSchemaLoaded # evs) =
     (case schemaLoadPromise (ensureSchemaLoaded s) of
        Some p \<Rightarrow> attempt p # observed (ensureSchemaLoaded s) evs
      | None \<Rightarrow> observed (ensureSchemaLoaded s) evs)"
| "observed s (LoadSettles db # evs) = observed (loadSettles db s) evs"

definition provideDocumentSemanticTokens ::
  "provider \<Rightarrow> session \<Rightarrow> string list \<Rightarrow> (error + token list) \<times> session" where
  \<comment> \<open>a classification request: \<open>await ensureSchemaLoaded()\<close>, then the pass; awaiting a
      rejected promise would throw\<close>
  "provideDocumentSemanticTokens db s document =
     (let s' = loadSettles db (ensureSchemaLoaded s)
      in case schemaLoadPromise s' of
           Some (Promise a (Some (Resolved u))) \<Rightarrow> (scanDocument (schema s') document, s')
         | _ \<Rightarrow> (Inl LoadRejected, s'))"

section \<open>The example of the specification\<close>

definition exampleSnapshot :: snapshot where
  \<comment> \<open>accounts(id, name), orders(id, account_id, total_amt_usd)\<close>
  "exampleSnapshot =
     \<lparr>KNOWN_TABLES = {''accounts'', ''orders''},
      KNOWN_COLUMNS = {''id'', ''accounts.id'', ''name'', ''accounts.name'',
                       ''orders.id'', ''account_id'', ''orders.account_id'',
                       ''total_amt_usd'', ''orders.total_amt_usd''},
      TABLE_COLUMNS = [''accounts'' \<mapsto> {''id'', ''name''},
                       ''orders'' \<mapsto> {''id'', ''account_id'', ''total_amt_usd''}]\<rparr>"

definition exampleProvider :: provider where
  "exampleProvider =
     \<lparr>connectOk = True,
      tablesRes = Resolved [''accounts'', ''orders''],
      colsRes = Resolved [(''accounts'', ''id''), (''accounts'', ''name''), (''orders'', ''id''),
                          (''orders'', ''account_id''), (''orders'', ''total_amt_usd'')],
      endOk = True\<rparr>"

definition exampleLine :: string where
  "exampleLine =
     ''SELECT a.name, SUM(o.total_amt_usd) AS total_sales FROM accounts a JOIN orders o ON a.id = o.account_id''"

section \<open>Notions used in the statements and proofs\<close>

definition within :: "nat \<Rightarrow> nat \<Rightarrow> nat \<Rightarrow> token list \<Rightarrow> bool" where
  \<comment> \<open>an ordered run of tokens of line \<open>ln\<close> that start between \<open>lo\<close> and \<open>hi\<close>\<close>
  "within ln lo hi new =
     (nonDecreasing new
      \<and> list_all (\<lambda>t. tokLine t = ln \<and> lo \<le> startChar t \<and> startChar t \<le> hi) new)"

definition below :: "nat \<Rightarrow> nat \<Rightarrow> token list \<Rightarrow> bool" where
  \<comment> \<open>every token lies at or before column \<open>ci\<close> of line \<open>ln\<close>\<close>
  "below ln ci toks =
     list_all (\<lambda>t. tokLine t < ln \<or> (tokLine t = ln \<and> startChar t \<le> ci)) toks"

definition belowLine :: "nat \<Rightarrow> token list \<Rightarrow> bool" where
  "belowLine ln toks = list_all (\<lambda>t. tokLine t < ln) toks"


definition fromScan :: scan where
  \<comment> \<open>a pass that has just read \<open>from\<close>\<close>
  "fromScan = initialScan\<lparr>mode := ModeFrom\<rparr>"


definition failingProvider :: provider where
  \<comment> \<open>a database whose second catalog query fails\<close>
  "failingProvider =
     \<lparr>connectOk = True, tablesRes = Resolved [''accounts'', ''orders''], colsRes = Rejected,
      endOk = True\<rparr>"

section \<open>Facts about the string operations\<close>

lemma startsWith_length: "startsWith s p \<Longrightarrow> length p \<le> length s"
  by (induction s p rule: startsWith.induct) auto

lemma indexOf_bound: "indexOf hay needle = Some k \<Longrightarrow> k + length needle \<le> length hay"
proof (induction hay arbitrary: k)
  case Nil
  then show ?case by (simp split: if_splits)
next
  case (Cons c cs)
  show ?case
  proof (cases "startsWith (c # cs) needle")
    case True
    with Cons.prems have "k = 0" by simp
    with True show ?thesis using startsWith_length by fastforce
  next
    case False
    with Cons.prems obtain j where "indexOf cs needle = Some j" "k = Suc j" by auto
    with Cons.IH show ?thesis by fastforce
  qed
qed

lemma indexOf_single:
  "indexOf s [c] = (if c \<in> set s then Some (length (takeWhile (\<lambda>x. x \<noteq> c) s)) else None)"
  by (induction s) auto

lemma length_trim: "length (trim s) \<le> length s"
proof -
  have "length (trim s) \<le> length (dropWhile isWhiteSpace s)"
    unfolding trim_def using length_dropWhile_le [of isWhiteSpace "rev (dropWhile isWhiteSpace s)"] by simp
  also have "\<dots> \<le> length s" by (rule length_dropWhile_le)
  finally show ?thesis .
qed

lemma set_dropWhile_subset: "set (dropWhile P xs) \<subseteq> set xs"
  by (auto dest: set_dropWhileD)

lemma set_strip_both: "set (rev (dropWhile P (rev (dropWhile P xs)))) \<subseteq> set xs"
proof -
  have "set (dropWhile P (rev (dropWhile P xs))) \<subseteq> set (rev (dropWhile P xs))"
    by (rule set_dropWhile_subset)
  also have "\<dots> = set (dropWhile P xs)" by simp
  also have "\<dots> \<subseteq> set xs" by (rule set_dropWhile_subset)
  finally show ?thesis by simp
qed

lemma set_trim: "set (trim s) \<subseteq> set s"
  unfolding trim_def by (rule set_strip_both)

lemma set_cleanIdentifier: "set (cleanIdentifier s) \<subseteq> set s"
proof -
  define f where "f = filter (\<lambda>c. c \<noteq> CHR '','' \<and> c \<noteq> CHR '';'' \<and> c \<noteq> CHR ''('' \<and> c \<noteq> CHR '')'') s"
  define q where "q = rev (dropWhile (\<lambda>c. c = CHR 0x22) (rev (dropWhile (\<lambda>c. c = CHR 0x22) f)))"
  have c: "cleanIdentifier s = trim q"
    by (simp add: cleanIdentifier_def Let_def q_def f_def)
  have "set (trim q) \<subseteq> set q" by (rule set_trim)
  also have "\<dots> \<subseteq> set f" unfolding q_def by (rule set_strip_both)
  also have "\<dots> \<subseteq> set s" unfolding f_def by (rule filter_is_subset)
  finally show ?thesis using c by simp
qed

lemma trim_Nil: "trim s = [] \<Longrightarrow> \<forall>c\<in>set s. isWhiteSpace c"
proof -
  assume "trim s = []"
  then have "dropWhile isWhiteSpace (rev (dropWhile isWhiteSpace s)) = []"
    by (simp add: trim_def)
  then have a: "\<forall>c\<in>set (dropWhile isWhiteSpace s). isWhiteSpace c"
    by (simp add: dropWhile_eq_Nil_conv)
  have "dropWhile isWhiteSpace s = []"
  proof (rule ccontr)
    assume ne: "dropWhile isWhiteSpace s \<noteq> []"
    then have "\<not> isWhiteSpace (hd (dropWhile isWhiteSpace s))" by (rule hd_dropWhile)
    moreover from ne have "hd (dropWhile isWhiteSpace s) \<in> set (dropWhile isWhiteSpace s)"
      by simp
    ultimately show False using a by blast
  qed
  then show ?thesis by (simp add: dropWhile_eq_Nil_conv)
qed


lemma splitLimit2_dotted:
  assumes "sep \<notin> set left" "sep \<notin> set right"
  shows "splitLimit2 sep (left @ sep # right) = [left, right]"
proof -
  have l: "takeWhile (\<lambda>c. c \<noteq> sep) (left @ sep # right) = left"
    using assms(1) by (induction left) auto
  have d: "dropWhile (\<lambda>c. c \<noteq> sep) (left @ sep # right) = sep # right"
    using assms(1) by (induction left) auto
  have r: "takeWhile (\<lambda>c. c \<noteq> sep) right = right"
    using assms(2) by (induction right) auto
  show ?thesis by (simp add: splitLimit2_def l d r)
qed

section \<open>Facts about characters and keywords\<close>

lemma isLetter_toLower: "isLetter (toLower c) = isLetter c"
proof -
  have "(of_char c :: nat) < 256" by simp
  then show ?thesis
    unfolding isLetter_def toLower_def Let_def by (auto simp: of_char_of)
qed

lemma hasLetter_toLowerCase: "hasLetter (toLowerCase s) = hasLetter s"
  by (induction s) (simp_all add: hasLetter_def toLowerCase_def isLetter_toLower)

lemma toLower_dot: "toLower CHR ''.'' = CHR ''.''"
  by (simp add: toLower_def)

lemma dot_toLowerCase: "CHR ''.'' \<in> set s \<Longrightarrow> CHR ''.'' \<in> set (toLowerCase s)"
  unfolding toLowerCase_def using toLower_dot by (metis image_eqI set_map)

lemma letter_not_space: "isLetter c \<Longrightarrow> \<not> isWhiteSpace c"
  by (auto simp: isLetter_def isWhiteSpace_def)

lemma hasLetter_clean_raw:
  assumes "hasLetter (cleanIdentifier rawPart)"
  shows "rawPart \<noteq> [] \<and> trim rawPart \<noteq> []"
proof -
  from assms obtain c where c: "c \<in> set (cleanIdentifier rawPart)" "isLetter c"
    by (auto simp: hasLetter_def list_ex_iff)
  then have "c \<in> set rawPart" using set_cleanIdentifier by blast
  with c(2) show ?thesis using trim_Nil letter_not_space by fastforce
qed


lemma keyword_no_dot: "w \<in> SQL_KEYWORDS \<Longrightarrow> CHR ''.'' \<notin> set w"
  by (auto simp: SQL_KEYWORDS_def)

lemma keyword_special:
  "''select'' \<in> SQL_KEYWORDS" "''from'' \<in> SQL_KEYWORDS" "''join'' \<in> SQL_KEYWORDS"
  "''as'' \<in> SQL_KEYWORDS"
  by (simp_all add: SQL_KEYWORDS_def)

lemma matchAggregate_length: "matchAggregate names s = Some g \<Longrightarrow> length g \<le> length s"
proof (induction names)
  case Nil
  then show ?case by simp
next
  case (Cons name names)
  let ?r = "dropWhile isWhiteSpace (drop (length name) s)"
  have "length (takeWhile (\<lambda>c. c \<noteq> CHR '')'') (tl ?r)) \<le> length (tl ?r)"
    by (rule length_takeWhile_le)
  also have "\<dots> \<le> length ?r" by simp
  also have "\<dots> \<le> length (drop (length name) s)" by (rule length_dropWhile_le)
  also have "\<dots> \<le> length s" by simp
  finally have "length (takeWhile (\<lambda>c. c \<noteq> CHR '')'') (tl ?r)) \<le> length s" .
  with Cons show ?case by (auto simp: Let_def split: if_splits)
qed

lemma funcCallMatch_length: "funcCallMatch s = Some g \<Longrightarrow> length g \<le> length s"
  unfolding funcCallMatch_def by (rule matchAggregate_length)

section \<open>What one fragment emits\<close>

lemma nonDecreasing_append:
  "nonDecreasing xs \<Longrightarrow> nonDecreasing ys \<Longrightarrow> (\<forall>x\<in>set xs. \<forall>y\<in>set ys. tokLeq x y)
     \<Longrightarrow> nonDecreasing (xs @ ys)"
proof (induction xs rule: nonDecreasing.induct)
  case 1
  then show ?case by simp
next
  case (2 t)
  then show ?case by (cases ys) auto
next
  case (3 a b ts)
  then show ?case by auto
qed

lemma within_Nil: "within ln lo hi []"
  by (simp add: within_def)

lemma within_one: "lo \<le> s \<Longrightarrow> s \<le> hi \<Longrightarrow> within ln lo hi [Token ln s n ty]"
  by (simp add: within_def)

lemma within_two:
  "lo \<le> s \<Longrightarrow> s \<le> s' \<Longrightarrow> s' \<le> hi \<Longrightarrow> within ln lo hi [Token ln s n ty, Token ln s' n' ty']"
  by (simp add: within_def tokLeq_def)

lemma below_within:
  assumes "nonDecreasing toks" "below ln ci toks" "within ln ci hi new" "ci \<le> hi"
  shows "nonDecreasing (toks @ new) \<and> below ln hi (toks @ new)"
proof
  have "\<forall>x\<in>set toks. \<forall>y\<in>set new. tokLeq x y"
    using assms(2,3) by (fastforce simp: below_def within_def list_all_iff tokLeq_def)
  with assms show "nonDecreasing (toks @ new)"
    by (simp add: nonDecreasing_append within_def)
  show "below ln hi (toks @ new)"
    using assms(2,3,4) by (fastforce simp: below_def within_def list_all_iff)
qed

lemma aggregateCall_emits:
  assumes "length innerExpr \<le> length rawPart"
  shows "\<exists>new. builder (aggregateCall ln rawPart innerExpr st) = builder st @ new
           \<and> within ln (charIndex st) (charIndex st + length rawPart) new
           \<and> charIndex (aggregateCall ln rawPart innerExpr st) = charIndex st + length rawPart"
proof -
  let ?t = "trim innerExpr"
  let ?k = "case indexOf rawPart ?t of Some k \<Rightarrow> k | None \<Rightarrow> 0"
  have k: "?k + length ?t \<le> length rawPart"
  proof (cases "indexOf rawPart ?t")
    case None
    then show ?thesis using assms length_trim [of innerExpr] by simp
  next
    case (Some k)
    then show ?thesis using indexOf_bound by simp
  qed
  show ?thesis
  proof (cases "indexOf ?t ''.''")
    case None
    with k show ?thesis
      by (auto simp: aggregateCall_def Let_def addToken_def advance_def within_Nil intro!: within_one)
  next
    case (Some d)
    then have "d + 1 \<le> length ?t" using indexOf_bound by fastforce
    with k have "?k + d + 1 \<le> length rawPart" by linarith
    with Some show ?thesis
      by (auto simp: aggregateCall_def Let_def addToken_def advance_def within_Nil
          intro!: within_one within_two)
  qed
qed

lemma dottedIdentifier_emits:
  assumes "dottedIdentifier K ln rawPart cleaned st = Some st'"
  shows "\<exists>new. builder st' = builder st @ new
           \<and> within ln (charIndex st) (charIndex st + length rawPart) new
           \<and> charIndex st' = charIndex st + length rawPart"
proof -
  from assms obtain leftRaw rightRaw d where
    sp: "splitLimit2 CHR ''.'' cleaned = [leftRaw, rightRaw]" and
    d: "indexOf rawPart ''.'' = Some d"
    by (auto simp: dottedIdentifier_def split: if_splits list.splits option.splits)
  from d have "d + 1 \<le> length rawPart" using indexOf_bound by fastforce
  with assms sp d show ?thesis
    by (auto simp: dottedIdentifier_def Let_def addToken_def advance_def within_Nil
        split: if_splits intro!: within_one within_two)
qed

lemma bareIdentifier_emits:
  "\<exists>new. builder (bareIdentifier K ln rawPart lower st) = builder st @ new
           \<and> within ln (charIndex st) (charIndex st + length rawPart) new
           \<and> charIndex (bareIdentifier K ln rawPart lower st) = charIndex st + length rawPart"
  by (auto simp: bareIdentifier_def Let_def addToken_def advance_def within_Nil
      split: if_splits option.splits intro!: within_one)

lemma classifyPart_emits:
  "\<exists>new. builder (classifyPart K ln rawPart st) = builder st @ new
           \<and> within ln (charIndex st) (charIndex st + length rawPart) new
           \<and> charIndex (classifyPart K ln rawPart st) = charIndex st + length rawPart"
proof -
  let ?st = "st\<lparr>lastWasAs := False\<rparr>"
  let ?c = "cleanIdentifier rawPart"
  have d: "\<exists>new. builder (case dottedIdentifier K ln rawPart ?c ?st of Some st' \<Rightarrow> st'
                  | None \<Rightarrow> bareIdentifier K ln rawPart (toLowerCase ?c) ?st) = builder st @ new
           \<and> within ln (charIndex st) (charIndex st + length rawPart) new
           \<and> charIndex (case dottedIdentifier K ln rawPart ?c ?st of Some st' \<Rightarrow> st'
                  | None \<Rightarrow> bareIdentifier K ln rawPart (toLowerCase ?c) ?st)
               = charIndex st + length rawPart"
  proof (cases "dottedIdentifier K ln rawPart ?c ?st")
    case None
    then show ?thesis using bareIdentifier_emits [of K ln rawPart "toLowerCase ?c" ?st] by simp
  next
    case (Some st')
    then show ?thesis using dottedIdentifier_emits [OF Some] by simp
  qed
  show ?thesis
    unfolding classifyPart_def Let_def
    using d by (auto simp: addToken_def advance_def within_Nil intro!: within_one)
qed

lemma processPart_emits:
  "\<exists>new. builder (processPart K ln st rawPart) = builder st @ new
           \<and> within ln (charIndex st) (charIndex st + length rawPart) new
           \<and> charIndex (processPart K ln st rawPart) = charIndex st + length rawPart"
proof (cases "funcCallMatch rawPart")
  case None
  then show ?thesis
    using classifyPart_emits [of K ln rawPart st]
    by (auto simp: processPart_def advance_def within_Nil)
next
  case (Some inner)
  then show ?thesis
    using aggregateCall_emits [OF funcCallMatch_length [OF Some], of ln st]
    by (auto simp: processPart_def advance_def within_Nil)
qed

lemma processPart_ordered:
  assumes "nonDecreasing (builder st)" "below ln (charIndex st) (builder st)"
  shows "nonDecreasing (builder (processPart K ln st rawPart))
         \<and> below ln (charIndex (processPart K ln st rawPart)) (builder (processPart K ln st rawPart))"
proof -
  obtain new where "builder (processPart K ln st rawPart) = builder st @ new"
    "within ln (charIndex st) (charIndex st + length rawPart) new"
    "charIndex (processPart K ln st rawPart) = charIndex st + length rawPart"
    using processPart_emits by blast
  with assms show ?thesis
    using below_within [where toks = "builder st" and new = new and ln = ln
        and ci = "charIndex st" and hi = "charIndex st + length rawPart"] by simp
qed

lemma foldl_processPart_ordered:
  "nonDecreasing (builder st) \<Longrightarrow> below ln (charIndex st) (builder st) \<Longrightarrow>
   nonDecreasing (builder (foldl (processPart K ln) st parts))
   \<and> below ln (charIndex (foldl (processPart K ln) st parts))
        (builder (foldl (processPart K ln) st parts))"
proof (induction parts arbitrary: st)
  case Nil
  then show ?case by simp
next
  case (Cons p parts)
  then show ?case using processPart_ordered [of st ln K p] by simp
qed

lemma scanLine_ordered:
  assumes "nonDecreasing (builder st)" "belowLine ln (builder st)"
  shows "nonDecreasing (builder (scanLine K ln rawLine st))
         \<and> belowLine (Suc ln) (builder (scanLine K ln rawLine st))"
proof (cases "trim (stripComment rawLine) = []")
  case True
  with assms show ?thesis by (auto simp: scanLine_def belowLine_def list_all_iff)
next
  case False
  have "nonDecreasing (builder (beginLine st))"
    using assms(1) by (simp add: beginLine_def)
  moreover have "below ln (charIndex (beginLine st)) (builder (beginLine st))"
    using assms(2) by (auto simp: below_def belowLine_def beginLine_def list_all_iff)
  ultimately have "nonDecreasing (builder (foldl (processPart K ln) (beginLine st) (splitWs (stripComment rawLine))))
   \<and> below ln (charIndex (foldl (processPart K ln) (beginLine st) (splitWs (stripComment rawLine))))
        (builder (foldl (processPart K ln) (beginLine st) (splitWs (stripComment rawLine))))"
    by (rule foldl_processPart_ordered)
  with False show ?thesis
    by (auto simp: scanLine_def Let_def below_def belowLine_def list_all_iff)
qed

lemma scanLines_ordered:
  "nonDecreasing (builder st) \<Longrightarrow> belowLine n (builder st) \<Longrightarrow>
   \<exists>st'. scanLines K document n st = Inr st' \<and> nonDecreasing (builder st')"
proof (induction K document n st rule: scanLines.induct)
  case (1 K document lineNumber st)
  show ?case
  proof (cases "lineNumber < length document")
    case False
    with "1.prems" show ?thesis by (simp add: scanLines.simps)
  next
    case True
    then have la: "lineAt document lineNumber = Inr (document ! lineNumber)"
      by (simp add: lineAt_def)
    let ?st = "scanLine K lineNumber (document ! lineNumber) st"
    have "nonDecreasing (builder ?st) \<and> belowLine (Suc lineNumber) (builder ?st)"
      using "1.prems" by (rule scanLine_ordered)
    then have "\<exists>st'. scanLines K document (Suc lineNumber) ?st = Inr st' \<and> nonDecreasing (builder st')"
      using "1.IH" [OF True la] by simp
    then show ?thesis using True la by (subst scanLines.simps) simp
  qed
qed

lemma scanLines_total: "\<exists>st'. scanLines K document n st = Inr st'"
proof (induction K document n st rule: scanLines.induct)
  case (1 K document lineNumber st)
  show ?case
  proof (cases "lineNumber < length document")
    case False
    then show ?thesis by (simp add: scanLines.simps)
  next
    case True
    then have la: "lineAt document lineNumber = Inr (document ! lineNumber)"
      by (simp add: lineAt_def)
    from "1.IH" [OF True la] show ?thesis using True la by (subst scanLines.simps) simp
  qed
qed

lemma scanDocument_total: "\<exists>toks. scanDocument K document = Inr toks"
proof -
  obtain st' where "scanLines K document 0 initialScan = Inr st'"
    using scanLines_total by blast
  then show ?thesis by (simp add: scanDocument_def)
qed

section \<open>What a fragment leaves unchanged\<close>

lemma aggregateCall_keeps:
  "lastTableName (aggregateCall ln rawPart inner st) = lastTableName st
   \<and> aliasMap (aggregateCall ln rawPart inner st) = aliasMap st
   \<and> mode (aggregateCall ln rawPart inner st) = mode st"
  by (simp add: aggregateCall_def Let_def addToken_def advance_def split: option.splits)

lemma classifyPart_keyword:
  assumes "toLowerCase (cleanIdentifier rawPart) \<in> SQL_KEYWORDS"
  shows "lastTableName (classifyPart K ln rawPart st) = lastTableName st
         \<and> aliasMap (classifyPart K ln rawPart st) = aliasMap st"
  using assms by (simp add: classifyPart_def Let_def advance_def)

lemma processPart_keyword:
  assumes "toLowerCase (cleanIdentifier rawPart) \<in> SQL_KEYWORDS"
  shows "lastTableName (processPart K ln st rawPart) = lastTableName st
         \<and> aliasMap (processPart K ln st rawPart) = aliasMap st"
  using classifyPart_keyword [OF assms] aggregateCall_keeps
  by (simp add: processPart_def advance_def split: option.splits)







lemma scanLine_steps: "scanLine K ln rawLine st = foldl (applyStep K) st (stepsOfLine ln rawLine)"
proof -
  have "foldl (applyStep K) s (map (Fragment ln) ps) = foldl (processPart K ln) s ps" for s ps
    by (induction ps arbitrary: s) simp_all
  then show ?thesis by (simp add: scanLine_def stepsOfLine_def Let_def)
qed

section \<open>Dotted identifiers\<close>

lemma dotted_builder:
  assumes nm: "funcCallMatch rawPart = None"
    and cl: "cleanIdentifier rawPart = left @ ''.'' @ right"
    and nd: "CHR ''.'' \<notin> set left" "CHR ''.'' \<notin> set right"
    and ne: "left \<noteq> []" "right \<noteq> []"
    and hl: "hasLetter (left @ ''.'' @ right)"
    and na: "\<not> (lastWasAs st \<and> mode st = ModeSelect)"
  shows "\<exists>d. indexOf rawPart ''.'' = Some d \<and>
           builder (processPart K ln st rawPart) =
             builder st
             @ (if (case aliasMap st (toLowerCase left) of Some t \<Rightarrow> t
                    | None \<Rightarrow> toLowerCase left) \<in> KNOWN_TABLES K
                   \<or> mode st = ModeFrom \<or> mode st = ModeSelect
                then [Token ln (charIndex st) (length left) Table] else [])
             @ (if hasLetter right
                then [Token ln (charIndex st + d + 1) (length right) Column] else [])"
proof -
  let ?c = "cleanIdentifier rawPart"
  have raw: "rawPart \<noteq> []" "trim rawPart \<noteq> []"
    using hasLetter_clean_raw [of rawPart] hl cl by simp_all
  have dotc: "CHR ''.'' \<in> set ?c" using cl by simp
  then have "CHR ''.'' \<in> set rawPart" using set_cleanIdentifier by blast
  then obtain d where d: "indexOf rawPart ''.'' = Some d" by (simp add: indexOf_single)
  have nk: "toLowerCase ?c \<notin> SQL_KEYWORDS"
    using dot_toLowerCase [OF dotc] keyword_no_dot by blast
  then have nk': "toLowerCase ?c \<noteq> ''select''" "toLowerCase ?c \<noteq> ''from''"
    "toLowerCase ?c \<noteq> ''join''" "toLowerCase ?c \<noteq> ''as''"
    using keyword_special by auto
  have inc: "includesChar ?c CHR ''.''" using dotc by (simp add: includesChar_def indexOf_single)
  have sp: "splitLimit2 CHR ''.'' ?c = [left, right]"
    using splitLimit2_dotted [OF nd] cl by simp
  have cne: "?c \<noteq> []" using cl by simp
  have hlc: "hasLetter ?c" using hl cl by simp
  have cp: "processPart K ln st rawPart = classifyPart K ln rawPart st"
    using raw nm by (simp add: processPart_def)
  have "builder (classifyPart K ln rawPart st) =
             builder st
             @ (if (case aliasMap st (toLowerCase left) of Some t \<Rightarrow> t
                    | None \<Rightarrow> toLowerCase left) \<in> KNOWN_TABLES K
                   \<or> mode st = ModeFrom \<or> mode st = ModeSelect
                then [Token ln (charIndex st) (length left) Table] else [])
             @ (if hasLetter right
                then [Token ln (charIndex st + d + 1) (length right) Column] else [])"
    unfolding classifyPart_def Let_def
    using cne hlc nk nk' na inc sp d ne
    by (simp add: dottedIdentifier_def Let_def hasLetter_toLowerCase addToken_def advance_def)
  with cp d show ?thesis by simp
qed




section \<open>Facts about the schema load\<close>

lemma clearSchema_empty: "clearSchema K = emptySnapshot"
  by (cases K) (simp add: clearSchema_def emptySnapshot_def)

lemma fold_addTableRow:
  "KNOWN_TABLES (fold addTableRow rows K) = toLowerCase ` set rows \<union> KNOWN_TABLES K
   \<and> KNOWN_COLUMNS (fold addTableRow rows K) = KNOWN_COLUMNS K
   \<and> TABLE_COLUMNS (fold addTableRow rows K) =
       (\<lambda>t. if t \<in> toLowerCase ` set rows then Some {} else TABLE_COLUMNS K t)"
proof (induction rows arbitrary: K)
  case Nil
  then show ?case by simp
next
  case (Cons r rows)
  define K' where "K' = addTableRow r K"
  have k: "KNOWN_TABLES K' = insert (toLowerCase r) (KNOWN_TABLES K)"
    "KNOWN_COLUMNS K' = KNOWN_COLUMNS K"
    "TABLE_COLUMNS K' = (TABLE_COLUMNS K)(toLowerCase r \<mapsto> {})"
    by (simp_all add: K'_def addTableRow_def Let_def)
  have f: "fold addTableRow (r # rows) K = fold addTableRow rows K'"
    by (simp add: K'_def)
  show ?case
    unfolding f using Cons.IH [of K'] k by (auto simp: fun_eq_iff)
qed

lemma exampleSnapshot_loaded:
  "loadSchemaFromDatabase exampleProvider emptySnapshot = (Resolved (), exampleSnapshot)"
  by (auto simp: loadSchemaFromDatabase_def exampleProvider_def exampleSnapshot_def
      emptySnapshot_def clearSchema_def addTableRow_def addColumnRow_def Let_def
      toLowerCase_def toLower_def fun_eq_iff)

lemma request_result:
  assumes "schemaLoadPromise s = None"
  shows "provideDocumentSemanticTokens db s document =
           (scanDocument (snd (loadSchemaFromDatabase db (schema s))) document,
            s\<lparr>schemaLoadPromise :=
                 Some (Promise (Suc (loadsStarted s))
                        (Some (catchLog (fst (loadSchemaFromDatabase db (schema s)))))),
               loadsStarted := Suc (loadsStarted s),
               schema := snd (loadSchemaFromDatabase db (schema s))\<rparr>)"
proof -
  obtain r K where l: "loadSchemaFromDatabase db (schema s) = (r, K)" by (cases "loadSchemaFromDatabase db (schema s)")
  have c: "\<exists>u. catchLog r = Resolved u" by (cases r) (simp_all add: catchLog_def)
  then obtain u where u: "catchLog r = Resolved u" by blast
  show ?thesis
    using assms l u
    by (simp add: provideDocumentSemanticTokens_def ensureSchemaLoaded_def loadSettles_def Let_def)
qed

lemma started_stays:
  "schemaLoadPromise s = Some p \<Longrightarrow>
     loadsStarted (foldl sessionStep s evs) = loadsStarted s
     \<and> observed s evs = replicate (length (filter (\<lambda>e. e = EnsureSchemaLoaded) evs)) (attempt p)"
proof (induction evs arbitrary: s p)
  case Nil
  then show ?case by simp
next
  case (Cons e evs)
  show ?case
  proof (cases e)
    case EnsureSchemaLoaded
    have "ensureSchemaLoaded s = s" using Cons.prems by (simp add: ensureSchemaLoaded_def)
    then show ?thesis using Cons.IH [OF Cons.prems] Cons.prems EnsureSchemaLoaded by simp
  next
    case (LoadSettles db)
    obtain a x where p: "p = Promise a x" by (cases p)
    obtain r K where l: "loadSchemaFromDatabase db (schema s) = (r, K)"
      by (cases "loadSchemaFromDatabase db (schema s)")
    have "\<exists>x'. schemaLoadPromise (loadSettles db s) = Some (Promise a x')
            \<and> loadsStarted (loadSettles db s) = loadsStarted s"
      using Cons.prems p l by (cases x) (simp_all add: loadSettles_def)
    then obtain x' where s': "schemaLoadPromise (loadSettles db s) = Some (Promise a x')"
      "loadsStarted (loadSettles db s) = loadsStarted s"
      by blast
    show ?thesis using Cons.IH [OF s'(1)] s'(2) LoadSettles p by simp
  qed
qed

lemma started_at_most_once:
  "schemaLoadPromise s = None \<Longrightarrow> loadsStarted s = 0 \<Longrightarrow>
     loadsStarted (foldl sessionStep s evs) \<le> 1"
proof (induction evs arbitrary: s)
  case Nil
  then show ?case by simp
next
  case (Cons e evs)
  show ?case
  proof (cases e)
    case EnsureSchemaLoaded
    have "schemaLoadPromise (ensureSchemaLoaded s) = Some (Promise 1 None)"
      "loadsStarted (ensureSchemaLoaded s) = 1"
      using Cons.prems by (simp_all add: ensureSchemaLoaded_def)
    then show ?thesis using started_stays EnsureSchemaLoaded by simp
  next
    case (LoadSettles db)
    have "loadSettles db s = s" using Cons.prems by (simp add: loadSettles_def)
    then show ?thesis using Cons LoadSettles by simp
  qed
qed

section \<open>Binding an alias\<close>

lemma classifyPart_keyword_mode:
  assumes "toLowerCase (cleanIdentifier rawPart) \<in> SQL_KEYWORDS"
    and "toLowerCase (cleanIdentifier rawPart) \<noteq> ''select''"
    and "mode st = ModeFrom"
  shows "mode (classifyPart K ln rawPart st) = ModeFrom"
  using assms by (simp add: classifyPart_def Let_def advance_def)

lemma processPart_keyword_mode:
  assumes "toLowerCase (cleanIdentifier rawPart) \<in> SQL_KEYWORDS"
    and "toLowerCase (cleanIdentifier rawPart) \<noteq> ''select''"
    and "mode st = ModeFrom"
  shows "mode (processPart K ln st rawPart) = ModeFrom"
  using classifyPart_keyword_mode [OF assms] aggregateCall_keeps assms(3)
  by (simp add: processPart_def advance_def split: option.splits)

lemma processPart_space: "processPart K ln st '' '' = advance '' '' st"
  by (simp add: processPart_def trim_def isWhiteSpace_def)

lemma bare_alias_binding:
  assumes m: "mode st = ModeFrom"
    and t: "lastTableName st = Some t" "t \<noteq> []"
    and nm: "funcCallMatch x = None"
    and hl: "hasLetter (cleanIdentifier x)"
    and nk: "toLowerCase (cleanIdentifier x) \<notin> SQL_KEYWORDS"
    and nd: "CHR ''.'' \<notin> set (cleanIdentifier x)"
    and nt: "toLowerCase (cleanIdentifier x) \<notin> KNOWN_TABLES K"
  shows "aliasMap (processPart K ln st x) = (aliasMap st)(toLowerCase (cleanIdentifier x) \<mapsto> t)
         \<and> lastTableName (processPart K ln st x) = None"
proof -
  let ?c = "cleanIdentifier x"
  have raw: "x \<noteq> []" "trim x \<noteq> []" using hasLetter_clean_raw [OF hl] by simp_all
  have cne: "?c \<noteq> []" using hl by (auto simp: hasLetter_def)
  have nk': "toLowerCase ?c \<noteq> ''select''" "toLowerCase ?c \<noteq> ''from''"
    "toLowerCase ?c \<noteq> ''join''" "toLowerCase ?c \<noteq> ''as''"
    using nk keyword_special by auto
  have dn: "dottedIdentifier K ln x ?c (st\<lparr>lastWasAs := False\<rparr>) = None"
    using nd by (simp add: dottedIdentifier_def includesChar_def indexOf_single)
  have "classifyPart K ln x st = bareIdentifier K ln x (toLowerCase ?c) (st\<lparr>lastWasAs := False\<rparr>)"
    using cne hl nk nk' m dn by (simp add: classifyPart_def Let_def)
  moreover have "processPart K ln st x = classifyPart K ln x st"
    using raw nm by (simp add: processPart_def)
  ultimately show ?thesis
    using m t nk nt
    by (simp add: bareIdentifier_def Let_def truthy_def addToken_def advance_def)
qed

section \<open>Fragments that emit nothing\<close>

lemma hasLetter_subset: "hasLetter s \<Longrightarrow> set s \<subseteq> set t \<Longrightarrow> hasLetter t"
  by (auto simp: hasLetter_def list_ex_iff)

lemma letterless_fragment:
  assumes "funcCallMatch rawPart = None" "\<not> hasLetter (cleanIdentifier rawPart)"
  shows "builder (processPart K ln st rawPart) = builder st"
  using assms by (simp add: processPart_def classifyPart_def Let_def advance_def)

lemma keyword_fragment:
  assumes "funcCallMatch rawPart = None" "toLowerCase (cleanIdentifier rawPart) \<in> SQL_KEYWORDS"
  shows "builder (processPart K ln st rawPart) = builder st"
  using assms by (simp add: processPart_def classifyPart_def Let_def advance_def)

lemma unknown_bare_fragment:
  assumes nm: "funcCallMatch rawPart = None"
    and m: "mode st = ModeNone"
    and nd: "CHR ''.'' \<notin> set (cleanIdentifier rawPart)"
    and nt: "toLowerCase (cleanIdentifier rawPart) \<notin> KNOWN_TABLES K"
    and nc: "toLowerCase (cleanIdentifier rawPart) \<notin> KNOWN_COLUMNS K"
  shows "builder (processPart K ln st rawPart) = builder st"
proof -
  have dn: "dottedIdentifier K ln rawPart (cleanIdentifier rawPart) (st\<lparr>lastWasAs := False\<rparr>) = None"
    using nd by (simp add: dottedIdentifier_def includesChar_def indexOf_single)
  have "builder (bareIdentifier K ln rawPart (toLowerCase (cleanIdentifier rawPart))
           (st\<lparr>lastWasAs := False\<rparr>)) = builder st"
    using m nt nc by (simp add: bareIdentifier_def Let_def advance_def)
  then have "builder (classifyPart K ln rawPart st) = builder st"
    using m dn by (simp add: classifyPart_def Let_def advance_def)
  then show ?thesis using nm by (simp add: processPart_def advance_def)
qed

lemma unknown_dotted_fragment:
  assumes nm: "funcCallMatch rawPart = None"
    and m: "mode st = ModeNone"
    and cl: "cleanIdentifier rawPart = left @ ''.'' @ right"
    and nd: "CHR ''.'' \<notin> set left" "CHR ''.'' \<notin> set right"
    and ne: "left \<noteq> []" "right \<noteq> []"
    and hl: "hasLetter left"
    and nr: "\<not> hasLetter right"
    and nt: "(case aliasMap st (toLowerCase left) of Some t \<Rightarrow> t | None \<Rightarrow> toLowerCase left)
              \<notin> KNOWN_TABLES K"
  shows "builder (processPart K ln st rawPart) = builder st"
proof -
  have h: "hasLetter (left @ ''.'' @ right)" using hl by (simp add: hasLetter_def)
  have na: "\<not> (lastWasAs st \<and> mode st = ModeSelect)" using m by simp
  from dotted_builder [OF nm cl nd ne h na, of K ln] show ?thesis using m nr nt by auto
qed

lemma letterless_aggregate:
  assumes "funcCallMatch rawPart = Some innerExpr" "\<not> hasLetter innerExpr"
  shows "builder (processPart K ln st rawPart) = builder st"
proof -
  let ?t = "trim innerExpr"
  have sub: "set ?t \<subseteq> set innerExpr" by (rule set_trim)
  have n: "\<not> hasLetter (cleanIdentifier u)" if "set u \<subseteq> set ?t" for u
  proof
    assume "hasLetter (cleanIdentifier u)"
    then have "hasLetter u" using set_cleanIdentifier hasLetter_subset by blast
    then have "hasLetter innerExpr" using that sub hasLetter_subset by blast
    with assms(2) show False by simp
  qed
  have a: "\<not> hasLetter (cleanIdentifier ?t)" by (rule n) simp
  have b: "\<not> hasLetter (cleanIdentifier (take d ?t))" for d
    by (rule n) (rule set_take_subset)
  have c: "\<not> hasLetter (cleanIdentifier (drop d ?t))" for d
    by (rule n) (rule set_drop_subset)
  have "builder (aggregateCall ln rawPart innerExpr st) = builder st"
    using a b c by (simp add: aggregateCall_def Let_def advance_def split: option.splits)
  moreover have "rawPart \<noteq> []" using assms(1) by (auto simp: funcCallMatch_def)
  ultimately show ?thesis using assms(1) by (simp add: processPart_def advance_def)
qed

section \<open>The worked example\<close>

text \<open>
  Claim C1. Scanning the one-line document of the specification against the snapshot
  accounts(id, name), orders(id, account_id, total_amt_usd) emits, in this order: \<open>a\<close> as
  Table and \<open>name\<close> as Column (from \<open>a.name,\<close>), \<open>o\<close> as Table and \<open>total_amt_usd\<close> as
  Column (inside the aggregate call), \<open>total_sales\<close> as Column (after AS), \<open>accounts\<close>
  and its alias \<open>a\<close> as Table, \<open>orders\<close> and its alias \<open>o\<close> as Table, and a Table and a
  Column token for each of \<open>a.id\<close> and \<open>o.account_id\<close>.
\<close>

theorem example_document_tokens:
  "scanDocument exampleSnapshot [exampleLine] =
     Inr [Token 0 7 1 Table, Token 0 9 4 Column,
          Token 0 19 1 Table, Token 0 21 13 Column,
          Token 0 39 11 Column,
          Token 0 56 8 Table, Token 0 65 1 Table,
          Token 0 72 6 Table, Token 0 79 1 Table,
          Token 0 84 1 Table, Token 0 86 2 Column,
          Token 0 91 1 Table, Token 0 93 10 Column]"
  by code_simp

section \<open>The order of the emitted tokens\<close>

text \<open>
  Claim C2. For every document and every snapshot, the pass returns a token list in which
  each token has a greater line number than the token before it, or the same line number
  and a start column that is not smaller.
\<close>

theorem tokens_non_decreasing:
  "\<exists>toks. scanDocument K document = Inr toks \<and> nonDecreasing toks"
proof -
  have "nonDecreasing (builder initialScan)" "belowLine 0 (builder initialScan)"
    by (simp_all add: initialScan_def belowLine_def)
  then obtain st' where "scanLines K document 0 initialScan = Inr st'" "nonDecreasing (builder st')"
    using scanLines_ordered by blast
  then show ?thesis by (simp add: scanDocument_def)
qed

section \<open>Totality of the pass\<close>

text \<open>
  Claim C3. For every document the pass returns a token list and never throws: this holds
  for the empty document, for lines of a single character and for lines with unbalanced
  quotes or parentheses. A fragment only ever appends to the builder (possibly nothing);
  a lone quote or parenthesis appends nothing. A fragment that fails to classify leaves
  the builder as it was: one outside the aggregate call whose cleaned text is empty or has
  no letter or underscore; a keyword; outside any clause, a bare identifier that is
  neither a known table nor a known column, and a dotted identifier whose left part
  resolves to no known table and whose right part has no letter or underscore; and an
  aggregate call whose argument has no letter or underscore.
\<close>

theorem scan_never_throws:
  "(\<exists>toks. scanDocument K document = Inr toks)
   \<and> (\<exists>new. builder (processPart K ln st rawPart) = builder st @ new)
   \<and> scanDocument K [] = Inr []
   \<and> scanDocument K ([CHR 0x22] # []) = Inr []
   \<and> scanDocument K [''(''] = Inr []
   \<and> scanDocument K ['')'', [CHR 0x22, CHR ''(''] ] = Inr []
   \<and> (funcCallMatch rawPart = None \<and> \<not> hasLetter (cleanIdentifier rawPart)
        \<longrightarrow> builder (processPart K ln st rawPart) = builder st)
   \<and> (funcCallMatch rawPart = None \<and> toLowerCase (cleanIdentifier rawPart) \<in> SQL_KEYWORDS
        \<longrightarrow> builder (processPart K ln st rawPart) = builder st)
   \<and> (funcCallMatch rawPart = None \<and> mode st = ModeNone
        \<and> CHR ''.'' \<notin> set (cleanIdentifier rawPart)
        \<and> toLowerCase (cleanIdentifier rawPart) \<notin> KNOWN_TABLES K
        \<and> toLowerCase (cleanIdentifier rawPart) \<notin> KNOWN_COLUMNS K
        \<longrightarrow> builder (processPart K ln st rawPart) = builder st)
   \<and> (funcCallMatch rawPart = None \<and> mode st = ModeNone
        \<and> cleanIdentifier rawPart = left @ ''.'' @ right
        \<and> CHR ''.'' \<notin> set left \<and> CHR ''.'' \<notin> set right \<and> left \<noteq> [] \<and> right \<noteq> []
        \<and> hasLetter left \<and> \<not> hasLetter right
        \<and> (case aliasMap st (toLowerCase left) of Some t \<Rightarrow> t | None \<Rightarrow> toLowerCase left)
             \<notin> KNOWN_TABLES K
        \<longrightarrow> builder (processPart K ln st rawPart) = builder st)
   \<and> (funcCallMatch rawPart = Some innerExpr \<and> \<not> hasLetter innerExpr
        \<longrightarrow> builder (processPart K ln st rawPart) = builder st)"
proof -
  have a: "\<exists>toks. scanDocument K document = Inr toks" by (rule scanDocument_total)
  have b: "\<exists>new. builder (processPart K ln st rawPart) = builder st @ new"
    using processPart_emits [of K ln st rawPart] by blast
  have c: "scanDocument K [] = Inr []" by code_simp
  have d: "scanDocument K ([CHR 0x22] # []) = Inr []" by code_simp
  have e: "scanDocument K [''(''] = Inr []" by code_simp
  have f: "scanDocument K ['')'', [CHR 0x22, CHR ''(''] ] = Inr []" by code_simp
  have g: "funcCallMatch rawPart = None \<and> \<not> hasLetter (cleanIdentifier rawPart)
        \<longrightarrow> builder (processPart K ln st rawPart) = builder st"
    using letterless_fragment by blast
  have h: "funcCallMatch rawPart = None \<and> toLowerCase (cleanIdentifier rawPart) \<in> SQL_KEYWORDS
        \<longrightarrow> builder (processPart K ln st rawPart) = builder st"
    using keyword_fragment by blast
  have i: "funcCallMatch rawPart = None \<and> mode st = ModeNone
        \<and> CHR ''.'' \<notin> set (cleanIdentifier rawPart)
        \<and> toLowerCase (cleanIdentifier rawPart) \<notin> KNOWN_TABLES K
        \<and> toLowerCase (cleanIdentifier rawPart) \<notin> KNOWN_COLUMNS K
        \<longrightarrow> builder (processPart K ln st rawPart) = builder st"
    using unknown_bare_fragment by blast
  have j: "funcCallMatch rawPart = None \<and> mode st = ModeNone
        \<and> cleanIdentifier rawPart = left @ ''.'' @ right
        \<and> CHR ''.'' \<notin> set left \<and> CHR ''.'' \<notin> set right \<and> left \<noteq> [] \<and> right \<noteq> []
        \<and> hasLetter left \<and> \<not> hasLetter right
        \<and> (case aliasMap st (toLowerCase left) of Some t \<Rightarrow> t | None \<Rightarrow> toLowerCase left)
             \<notin> KNOWN_TABLES K
        \<longrightarrow> builder (processPart K ln st rawPart) = builder st"
    using unknown_dotted_fragment [of rawPart st left right K ln] by blast
  have k: "funcCallMatch rawPart = Some innerExpr \<and> \<not> hasLetter innerExpr
        \<longrightarrow> builder (processPart K ln st rawPart) = builder st"
    using letterless_aggregate by blast
  from a b c d e f g h i j k show ?thesis by blast
qed

theorem scan_never_throws_witness:
  "funcCallMatch ''>='' = None \<and> \<not> hasLetter (cleanIdentifier ''>='')
   \<and> builder (processPart exampleSnapshot 0 fromScan ''>='') = []
   \<and> funcCallMatch ''GROUP'' = None \<and> toLowerCase (cleanIdentifier ''GROUP'') \<in> SQL_KEYWORDS
   \<and> builder (processPart exampleSnapshot 0 fromScan ''GROUP'') = []
   \<and> funcCallMatch ''foo'' = None \<and> mode initialScan = ModeNone
   \<and> builder (processPart exampleSnapshot 0 initialScan ''foo'') = []
   \<and> funcCallMatch ''t.1'' = None \<and> cleanIdentifier ''t.1'' = ''t'' @ ''.'' @ ''1''
   \<and> builder (processPart exampleSnapshot 0 initialScan ''t.1'') = []
   \<and> funcCallMatch ''SUM(1)'' = Some ''1'' \<and> \<not> hasLetter ''1''
   \<and> builder (processPart exampleSnapshot 0 fromScan ''SUM(1)'') = []"
proof -
  have b0: "builder fromScan = []" "builder initialScan = []" "mode initialScan = ModeNone"
    by (simp_all add: fromScan_def initialScan_def)
  have g: "funcCallMatch ''>='' = None" "\<not> hasLetter (cleanIdentifier ''>='')" by code_simp+
  have h: "funcCallMatch ''GROUP'' = None" "toLowerCase (cleanIdentifier ''GROUP'') \<in> SQL_KEYWORDS"
    by code_simp+
  have i: "funcCallMatch ''foo'' = None" "CHR ''.'' \<notin> set (cleanIdentifier ''foo'')"
    "toLowerCase (cleanIdentifier ''foo'') \<notin> KNOWN_TABLES exampleSnapshot"
    "toLowerCase (cleanIdentifier ''foo'') \<notin> KNOWN_COLUMNS exampleSnapshot"
    by code_simp+
  have j: "funcCallMatch ''t.1'' = None" "cleanIdentifier ''t.1'' = ''t'' @ ''.'' @ ''1''"
    "CHR ''.'' \<notin> set ''t''" "CHR ''.'' \<notin> set ''1''" "''t'' \<noteq> []" "''1'' \<noteq> []"
    "hasLetter ''t''" "\<not> hasLetter ''1''"
    "(case aliasMap initialScan (toLowerCase ''t'') of Some t \<Rightarrow> t | None \<Rightarrow> toLowerCase ''t'')
       \<notin> KNOWN_TABLES exampleSnapshot"
    by code_simp+
  have k: "funcCallMatch ''SUM(1)'' = Some ''1''" by code_simp
  have r1: "builder (processPart exampleSnapshot 0 fromScan ''>='') = []"
    using scan_never_throws [of exampleSnapshot "[]" 0 fromScan "''>=''"] g b0 by simp
  have r2: "builder (processPart exampleSnapshot 0 fromScan ''GROUP'') = []"
    using scan_never_throws [of exampleSnapshot "[]" 0 fromScan "''GROUP''"] h b0 by simp
  have r3: "builder (processPart exampleSnapshot 0 initialScan ''foo'') = []"
    using scan_never_throws [of exampleSnapshot "[]" 0 initialScan "''foo''"] i b0 by simp
  have r4: "builder (processPart exampleSnapshot 0 initialScan ''t.1'') = []"
    using scan_never_throws [of exampleSnapshot "[]" 0 initialScan "''t.1''" "''t''" "''1''"] j b0
    by simp
  have r5: "builder (processPart exampleSnapshot 0 fromScan ''SUM(1)'') = []"
    using scan_never_throws [of exampleSnapshot "[]" 0 fromScan "''SUM(1)''" _ _ "''1''"] k j(8) b0
    by simp
  from g h i(1) b0(3) j(1,2) k j(8) r1 r2 r3 r4 r5 show ?thesis by blast
qed

section \<open>The pending table name and keywords\<close>

text \<open>
  Claim C4, as amended. A recognized keyword fragment does not invalidate the pending
  \<open>lastTableName\<close>: processing a fragment whose cleaned, lower-cased text is in the keyword
  set leaves \<open>lastTableName\<close> and the alias map as they were. Hence, in FROM mode with a
  pending table, a bare identifier (not a keyword, not a known table) that follows a
  keyword other than \<open>select\<close> after one blank is recorded as an alias of that table.
\<close>

theorem keyword_keeps_lastTableName:
  assumes "toLowerCase (cleanIdentifier kw) \<in> SQL_KEYWORDS"
  shows "lastTableName (processPart K ln st kw) = lastTableName st
         \<and> aliasMap (processPart K ln st kw) = aliasMap st
         \<and> (mode st = ModeFrom \<and> toLowerCase (cleanIdentifier kw) \<noteq> ''select''
              \<and> lastTableName st = Some t \<and> t \<noteq> []
              \<and> funcCallMatch x = None \<and> hasLetter (cleanIdentifier x)
              \<and> toLowerCase (cleanIdentifier x) \<notin> SQL_KEYWORDS
              \<and> CHR ''.'' \<notin> set (cleanIdentifier x)
              \<and> toLowerCase (cleanIdentifier x) \<notin> KNOWN_TABLES K
            \<longrightarrow> aliasMap (foldl (processPart K ln) st [kw, '' '', x])
                  = (aliasMap st)(toLowerCase (cleanIdentifier x) \<mapsto> t))"
proof -
  let ?s1 = "processPart K ln st kw"
  let ?s2 = "advance '' '' ?s1"
  have a: "lastTableName ?s1 = lastTableName st \<and> aliasMap ?s1 = aliasMap st"
    using assms by (rule processPart_keyword)
  have b: "aliasMap (foldl (processPart K ln) st [kw, '' '', x])
                  = (aliasMap st)(toLowerCase (cleanIdentifier x) \<mapsto> t)"
    if h: "mode st = ModeFrom" "toLowerCase (cleanIdentifier kw) \<noteq> ''select''"
      "lastTableName st = Some t" "t \<noteq> []"
      "funcCallMatch x = None" "hasLetter (cleanIdentifier x)"
      "toLowerCase (cleanIdentifier x) \<notin> SQL_KEYWORDS"
      "CHR ''.'' \<notin> set (cleanIdentifier x)"
      "toLowerCase (cleanIdentifier x) \<notin> KNOWN_TABLES K"
  proof -
    have m: "mode ?s2 = ModeFrom"
      using processPart_keyword_mode [OF assms h(2) h(1), of K ln] by (simp add: advance_def)
    have l: "lastTableName ?s2 = Some t" using a h(3) by (simp add: advance_def)
    have "aliasMap (processPart K ln ?s2 x) = (aliasMap ?s2)(toLowerCase (cleanIdentifier x) \<mapsto> t)"
      using bare_alias_binding [OF m l h(4) h(5) h(6) h(7) h(8) h(9), of ln] by simp
    then show ?thesis using a by (simp add: processPart_space advance_def)
  qed
  from a b show ?thesis by blast
qed

theorem keyword_keeps_lastTableName_witness:
  "toLowerCase (cleanIdentifier ''WHERE'') \<in> SQL_KEYWORDS
   \<and> lastTableName (processPart exampleSnapshot 0 (fromScan\<lparr>lastTableName := Some ''accounts''\<rparr>) ''WHERE'')
       = Some ''accounts''
   \<and> aliasMap (foldl (processPart exampleSnapshot 0) (fromScan\<lparr>lastTableName := Some ''accounts''\<rparr>)
        [''WHERE'', '' '', ''x'']) ''x'' = Some ''accounts''"
proof -
  let ?st = "fromScan\<lparr>lastTableName := Some ''accounts''\<rparr>"
  have h: "toLowerCase (cleanIdentifier ''WHERE'') \<in> SQL_KEYWORDS" by code_simp
  have p: "mode ?st = ModeFrom" "toLowerCase (cleanIdentifier ''WHERE'') \<noteq> ''select''"
    "lastTableName ?st = Some ''accounts''" "''accounts'' \<noteq> []"
    "funcCallMatch ''x'' = None" "hasLetter (cleanIdentifier ''x'')"
    "toLowerCase (cleanIdentifier ''x'') \<notin> SQL_KEYWORDS"
    "CHR ''.'' \<notin> set (cleanIdentifier ''x'')"
    "toLowerCase (cleanIdentifier ''x'') \<notin> KNOWN_TABLES exampleSnapshot"
    by code_simp+
  have c: "toLowerCase (cleanIdentifier ''x'') = ''x''" by code_simp
  from keyword_keeps_lastTableName [OF h, of exampleSnapshot 0 ?st "''accounts''" "''x''"]
  show ?thesis using h p c by simp
qed

text \<open>
  The claim as stated fails: in \<open>FROM accounts WHERE x\<close> the identifier after the keyword
  \<open>WHERE\<close> is recorded as an alias of \<open>accounts\<close>.
\<close>

theorem alias_after_keyword_counterexample:
  "aliasMap (scanLine exampleSnapshot 0 ''FROM accounts WHERE x'' initialScan) ''x'' = Some ''accounts''
   \<and> builder (scanLine exampleSnapshot 0 ''FROM accounts WHERE x'' initialScan)
       = [Token 0 5 8 Table, Token 0 20 1 Table]"
  by code_simp

section \<open>A failing schema load\<close>

text \<open>
  Claim C5, as amended. For the request that starts the load: the request returns a token
  list whatever the load does, and it scans against the sets as the load left them. If the
  connection fails the sets are unchanged; if the query for the tables fails they are
  empty; if the query for the columns fails they hold the tables just loaded, each with an
  empty column set, and no column.
\<close>

theorem failed_load_snapshot:
  assumes "schemaLoadPromise s = None"
  shows "(\<exists>toks. fst (provideDocumentSemanticTokens db s document) = Inr toks)
     \<and> schema (snd (provideDocumentSemanticTokens db s document))
         = snd (loadSchemaFromDatabase db (schema s))
     \<and> (\<not> connectOk db \<longrightarrow> loadSchemaFromDatabase db (schema s) = (Rejected, schema s))
     \<and> (connectOk db \<and> tablesRes db = Rejected \<longrightarrow>
          loadSchemaFromDatabase db (schema s) = (Rejected, emptySnapshot))
     \<and> (connectOk db \<and> tablesRes db = Resolved rows \<and> colsRes db = Rejected \<longrightarrow>
          fst (loadSchemaFromDatabase db (schema s)) = Rejected
          \<and> KNOWN_TABLES (snd (loadSchemaFromDatabase db (schema s))) = toLowerCase ` set rows
          \<and> KNOWN_COLUMNS (snd (loadSchemaFromDatabase db (schema s))) = {}
          \<and> TABLE_COLUMNS (snd (loadSchemaFromDatabase db (schema s)))
              = (\<lambda>t. if t \<in> toLowerCase ` set rows then Some {} else None))"
proof -
  have a: "\<exists>toks. fst (provideDocumentSemanticTokens db s document) = Inr toks"
    using request_result [OF assms] scanDocument_total by simp
  have b: "schema (snd (provideDocumentSemanticTokens db s document))
         = snd (loadSchemaFromDatabase db (schema s))"
    using request_result [OF assms] by simp
  have c: "\<not> connectOk db \<longrightarrow> loadSchemaFromDatabase db (schema s) = (Rejected, schema s)"
    by (simp add: loadSchemaFromDatabase_def)
  have d: "connectOk db \<and> tablesRes db = Rejected \<longrightarrow>
          loadSchemaFromDatabase db (schema s) = (Rejected, emptySnapshot)"
    by (simp add: loadSchemaFromDatabase_def clearSchema_empty)
  have e: "connectOk db \<and> tablesRes db = Resolved rows \<and> colsRes db = Rejected \<longrightarrow>
          fst (loadSchemaFromDatabase db (schema s)) = Rejected
          \<and> KNOWN_TABLES (snd (loadSchemaFromDatabase db (schema s))) = toLowerCase ` set rows
          \<and> KNOWN_COLUMNS (snd (loadSchemaFromDatabase db (schema s))) = {}
          \<and> TABLE_COLUMNS (snd (loadSchemaFromDatabase db (schema s)))
              = (\<lambda>t. if t \<in> toLowerCase ` set rows then Some {} else None)"
    by (auto simp: loadSchemaFromDatabase_def clearSchema_empty fold_addTableRow
        emptySnapshot_def fun_eq_iff)
  from a b c d e show ?thesis by blast
qed

theorem failed_load_snapshot_witness:
  "schemaLoadPromise initialSession = None
   \<and> connectOk failingProvider
   \<and> tablesRes failingProvider = Resolved [''accounts'', ''orders'']
   \<and> colsRes failingProvider = Rejected
   \<and> fst (loadSchemaFromDatabase failingProvider (schema initialSession)) = Rejected
   \<and> KNOWN_TABLES (schema (snd (provideDocumentSemanticTokens failingProvider initialSession
        [''accounts id''])))
       = {''accounts'', ''orders''}
   \<and> KNOWN_COLUMNS (schema (snd (provideDocumentSemanticTokens failingProvider initialSession
        [''accounts id''])))
       = {}"
proof -
  have h: "schemaLoadPromise initialSession = None" by (simp add: initialSession_def)
  have p: "connectOk failingProvider" "tablesRes failingProvider = Resolved [''accounts'', ''orders'']"
    "colsRes failingProvider = Rejected"
    by (simp_all add: failingProvider_def)
  have l: "toLowerCase ` set [''accounts'', ''orders''] = {''accounts'', ''orders''}"
    by (simp add: toLowerCase_def toLower_def)
  from failed_load_snapshot [OF h, of failingProvider "[''accounts id'']" "[''accounts'', ''orders'']"]
  show ?thesis using h p l by simp
qed

text \<open>
  The claim as stated fails: when the query for the columns fails, the request that follows
  sees the tables without their columns, which is neither the empty nor the previous
  snapshot.
\<close>

theorem partial_snapshot_counterexample:
  "fst (loadSchemaFromDatabase failingProvider (schema initialSession)) = Rejected
   \<and> fst (provideDocumentSemanticTokens failingProvider initialSession [''accounts id''])
       = Inr [Token 0 0 8 Table]
   \<and> schema (snd (provideDocumentSemanticTokens failingProvider initialSession [''accounts id'']))
       = \<lparr>KNOWN_TABLES = {''accounts'', ''orders''}, KNOWN_COLUMNS = {},
          TABLE_COLUMNS = [''accounts'' \<mapsto> {}, ''orders'' \<mapsto> {}]\<rparr>
   \<and> schema (snd (provideDocumentSemanticTokens failingProvider initialSession [''accounts id'']))
       \<noteq> emptySnapshot
   \<and> schema initialSession = emptySnapshot"
proof -
  have h: "schemaLoadPromise initialSession = None" by (simp add: initialSession_def)
  have l: "loadSchemaFromDatabase failingProvider (schema initialSession)
        = (Rejected, \<lparr>KNOWN_TABLES = {''accounts'', ''orders''}, KNOWN_COLUMNS = {},
          TABLE_COLUMNS = [''accounts'' \<mapsto> {}, ''orders'' \<mapsto> {}]\<rparr>)"
    by (auto simp: loadSchemaFromDatabase_def failingProvider_def initialSession_def
        clearSchema_def emptySnapshot_def addTableRow_def toLowerCase_def toLower_def Let_def)
  have t: "scanDocument \<lparr>KNOWN_TABLES = {''accounts'', ''orders''}, KNOWN_COLUMNS = {},
          TABLE_COLUMNS = [''accounts'' \<mapsto> {}, ''orders'' \<mapsto> {}]\<rparr> [''accounts id'']
        = Inr [Token 0 0 8 Table]"
    by code_simp
  have n: "\<lparr>KNOWN_TABLES = {''accounts'', ''orders''}, KNOWN_COLUMNS = {},
          TABLE_COLUMNS = [''accounts'' \<mapsto> {}, ''orders'' \<mapsto> {}]\<rparr> \<noteq> emptySnapshot"
    by (simp add: emptySnapshot_def)
  show ?thesis
    unfolding request_result [OF h] l using t n by (simp add: initialSession_def)
qed

section \<open>Dotted identifiers outside the aggregate-call shortcut\<close>




section \<open>Aliases bound in FROM\<close>




section \<open>An aggregate name separated from its parenthesis\<close>

text \<open>
  Claim C8. The fragments \<open>SUM\<close> and \<open>(x)\<close> do not match the aggregate call. \<open>SUM\<close> takes
  the branch of the other keywords: it only clears the pending AS and advances, emitting
  nothing. \<open>(x)\<close> goes through the ordinary rules on its cleaned text \<open>x\<close>: in
  \<open>SELECT SUM (x)\<close> it is emitted over its three characters, as Table if \<open>x\<close> is a known
  table and as Column otherwise, whereas \<open>SELECT SUM(x)\<close> emits the inner \<open>x\<close> as Column.
\<close>

theorem split_aggregate_is_keyword:
  "funcCallMatch ''SUM'' = None
   \<and> toLowerCase (cleanIdentifier ''SUM'') \<in> SQL_KEYWORDS
   \<and> processPart K ln st ''SUM'' = advance ''SUM'' (st\<lparr>lastWasAs := False\<rparr>)
   \<and> builder (processPart K ln st ''SUM'') = builder st
   \<and> funcCallMatch ''(x)'' = None
   \<and> processPart K ln st ''(x)'' = classifyPart K ln ''(x)'' st
   \<and> cleanIdentifier ''(x)'' = ''x''
   \<and> builder (scanLine K 0 ''SELECT SUM (x)'' initialScan)
       = [Token 0 11 3 (if ''x'' \<in> KNOWN_TABLES K then Table else Column)]
   \<and> builder (scanLine K 0 ''SELECT SUM(x)'' initialScan) = [Token 0 11 1 Column]"
proof -
  have a: "funcCallMatch ''SUM'' = None" by code_simp
  have b: "toLowerCase (cleanIdentifier ''SUM'') \<in> SQL_KEYWORDS" by code_simp
  have c: "processPart K ln st ''SUM'' = advance ''SUM'' (st\<lparr>lastWasAs := False\<rparr>)"
    by (simp add: processPart_def funcCallMatch_def classifyPart_def cleanIdentifier_def trim_def
        isWhiteSpace_def toLowerCase_def toLower_def char_of_def bit_Suc_0_iff hasLetter_def
        isLetter_def SQL_KEYWORDS_def)
  have d: "builder (processPart K ln st ''SUM'') = builder st"
    unfolding c by (simp add: advance_def)
  have e: "funcCallMatch ''(x)'' = None" by code_simp
  have f: "processPart K ln st ''(x)'' = classifyPart K ln ''(x)'' st"
    by (simp add: processPart_def e trim_def isWhiteSpace_def)
  have g: "cleanIdentifier ''(x)'' = ''x''" by code_simp
  have h: "builder (scanLine K 0 ''SELECT SUM (x)'' initialScan)
       = [Token 0 11 3 (if ''x'' \<in> KNOWN_TABLES K then Table else Column)]"
    by code_simp (simp add: addToken_def advance_def)
  have i: "builder (scanLine K 0 ''SELECT SUM(x)'' initialScan) = [Token 0 11 1 Column]"
    by code_simp
  from a b c d e f g h i show ?thesis by blast
qed

section \<open>One load per session\<close>

text \<open>
  Claim C9. In a session whose events are calls of \<open>ensureSchemaLoaded\<close> and settlements
  of the load (successful or failed) in any order: once the first call has been made,
  exactly one load has been started whatever follows, every call returns the promise of
  that first attempt, and no sequence of events starts more than one load.
\<close>

theorem single_flight:
  "loadsStarted (foldl sessionStep initialSession (EnsureSchemaLoaded # evs)) = 1
   \<and> observed initialSession (EnsureSchemaLoaded # evs)
       = replicate (Suc (length (filter (\<lambda>e. e = EnsureSchemaLoaded) evs))) 1
   \<and> loadsStarted (foldl sessionStep initialSession evs) \<le> 1"
proof -
  have p: "schemaLoadPromise (ensureSchemaLoaded initialSession) = Some (Promise 1 None)"
    "loadsStarted (ensureSchemaLoaded initialSession) = 1"
    by (simp_all add: ensureSchemaLoaded_def initialSession_def)
  have "loadsStarted (foldl sessionStep initialSession evs) \<le> 1"
    by (rule started_at_most_once) (simp_all add: initialSession_def)
  then show ?thesis using started_stays [OF p(1), of evs] p by simp
qed

section \<open>Letter case and the offset inside an aggregate call\<close>

text \<open>
  Claim C10 does not hold of the code: \<open>SUM(s)\<close> and its lower-case form \<open>sum(s)\<close> give
  tokens at different columns, since the offset of the inner expression is searched for in
  the fragment and is found inside the aggregate name.
\<close>

theorem aggregate_offset_depends_on_case:
  "toLowerCase ''SUM(s)'' = ''sum(s)''
   \<and> scanDocument K [''SUM(s)''] = Inr [Token 0 4 1 Column]
   \<and> scanDocument K [''sum(s)''] = Inr [Token 0 0 1 Column]"
  by code_simp

end
